theory Spec2Isabelle
  imports Main "HOL-Library.Sublist"
begin

section \<open>Plugin registry (src/plugins/registry.js)\<close>

text \<open>
  A plugin is an object answering \<^verbatim>\<open>getName()\<close>, \<^verbatim>\<open>getVersion()\<close> and
  \<^verbatim>\<open>getDependencies()\<close>; the registry only ever reads these three.
\<close>

record plugin =
  getName :: string
  getVersion :: string
  getDependencies :: "string list"

text \<open>The four \<^verbatim>\<open>throw new Error(...)\<close> sites of the registry, one constructor each.\<close>

datatype error =
    AlreadyRegistered string
  | PluginNotFound string
  | CircularDependency string
  | UnresolvedDependency string string

text \<open>
  A JavaScript \<^verbatim>\<open>Map\<close> is finite and keeps insertion order: an association list whose
  keys are looked up from the front. \<^verbatim>\<open>set\<close> overwrites the value of an existing key in
  place and appends a new key at the end.
\<close>

definition map_has :: "('k \<times> 'v) list \<Rightarrow> 'k \<Rightarrow> bool" where
  "map_has m k = (k \<in> fst ` set m)"

definition map_get :: "('k \<times> 'v) list \<Rightarrow> 'k \<Rightarrow> 'v option" where
  "map_get m k = map_of m k"

fun map_set :: "('k \<times> 'v) list \<Rightarrow> 'k \<Rightarrow> 'v \<Rightarrow> ('k \<times> 'v) list" where
  "map_set [] k v = [(k, v)]"
| "map_set ((k', v') # m) k v =
     (if k' = k then (k, v) # m else (k', v') # map_set m k v)"

record registry =
  plugins :: "(string \<times> plugin) list"

definition new_registry :: registry where
  "new_registry = \<lparr>plugins = []\<rparr>"

text \<open>
  \<^verbatim>\<open>register(plugin)\<close>: the outcome of the call together with the registry as the call
  leaves it (an exception leaves whatever had been mutated before the throw). The
  \<^verbatim>\<open>logger.debug\<close> line between the check and \<^verbatim>\<open>set\<close> touches nothing of the
  registry and is left out.
\<close>

definition register :: "registry \<Rightarrow> plugin \<Rightarrow> (error + unit) \<times> registry" where
  "register reg plugin =
     (let name = getName plugin in
      if map_has (plugins reg) name then (Inl (AlreadyRegistered name), reg)
      else (Inr (), reg\<lparr>plugins := map_set (plugins reg) name plugin\<rparr>))"

definition hasPlugin :: "registry \<Rightarrow> string \<Rightarrow> bool" where
  "hasPlugin reg name = map_has (plugins reg) name"

text \<open>
  \<^verbatim>\<open>getPlugin(name)\<close> throws unless the key is present and then returns
  \<^verbatim>\<open>this.plugins.get(name)\<close>; the \<open>None\<close> branch below is the \<^verbatim>\<open>undefined\<close> that
  \<^verbatim>\<open>Map.get\<close> gives for an absent key, which the guard excludes.
\<close>

definition getPlugin :: "registry \<Rightarrow> string \<Rightarrow> error + plugin" where
  "getPlugin reg name =
     (if \<not> map_has (plugins reg) name then Inl (PluginNotFound name)
      else (case map_get (plugins reg) name of
              Some p \<Rightarrow> Inr p
            | None \<Rightarrow> Inl (PluginNotFound name)))"

definition keys :: "registry \<Rightarrow> string set" where
  "keys reg = fst ` set (plugins reg)"

lemma finite_keys: "finite (keys reg)"
  by (simp add: keys_def)

lemma hasPlugin_keys: "hasPlugin reg name \<longleftrightarrow> name \<in> keys reg"
  by (simp add: hasPlugin_def map_has_def keys_def)

lemma getPlugin_Inr_keys: "getPlugin reg name = Inr p \<Longrightarrow> name \<in> keys reg"
  by (auto simp: getPlugin_def keys_def map_has_def split: if_splits)

text \<open>
  \<^verbatim>\<open>resolveDependencies(name, visited = new Set())\<close>. Every recursive call receives a
  fresh copy \<^verbatim>\<open>new Set(visited)\<close>, so \<open>visited\<close> is the set of names on the current
  path and is passed by value. \<open>resolve_each\<close> is the \<^verbatim>\<open>for (const dep of dependencies)\<close>
  loop of the call for \<open>name\<close>. The method returns nothing: a call either throws or
  comes back.
\<close>

function resolveDependencies :: "registry \<Rightarrow> string \<Rightarrow> string set \<Rightarrow> error + unit"
  and resolve_each :: "registry \<Rightarrow> string \<Rightarrow> string set \<Rightarrow> string list \<Rightarrow> error + unit"
where
  "resolveDependencies reg name visited =
     (if name \<in> visited then Inl (CircularDependency name)
      else (case getPlugin reg name of
              Inl e \<Rightarrow> Inl e
            | Inr plugin \<Rightarrow>
                resolve_each reg name (insert name visited) (getDependencies plugin)))"
| "resolve_each reg name visited [] = Inr ()"
| "resolve_each reg name visited (dep # deps) =
     (if \<not> hasPlugin reg dep then Inl (UnresolvedDependency dep name)
      else (case resolveDependencies reg dep visited of
              Inl e \<Rightarrow> Inl e
            | Inr u \<Rightarrow> resolve_each reg name visited deps))"
  by pat_completeness auto

termination
  apply (relation "inv_image (finite_psubset <*lex*> less_than)
     (\<lambda>x. case x of
         Inl (reg, name, visited) \<Rightarrow> (keys reg - visited, 0)
       | Inr (reg, name, visited, deps) \<Rightarrow> (keys reg - visited, Suc (length deps)))")
  subgoal by (intro wf_inv_image wf_lex_prod wf_finite_psubset wf_less_than)
  subgoal by (auto dest!: getPlugin_Inr_keys simp: finite_psubset_def finite_keys)
  subgoal by simp
  subgoal by simp
  done

text \<open>
  \<^verbatim>\<open>getPluginsInDependencyOrder(pluginNames)\<close>. The closure \<^verbatim>\<open>visit\<close> shares the two
  locals \<^verbatim>\<open>result\<close> and \<^verbatim>\<open>visited\<close>; they are threaded through as a state.
  \<open>visit_each\<close> is the \<^verbatim>\<open>for (const ... of ...) visit(...)\<close> loop, which the source
  runs over the dependencies inside \<^verbatim>\<open>visit\<close> and over \<^verbatim>\<open>pluginNames\<close> outside.
\<close>

record order_state =
  visited :: "string set"
  result :: "string list"

function visit :: "registry \<Rightarrow> string \<Rightarrow> order_state \<Rightarrow> error + order_state"
  and visit_each :: "registry \<Rightarrow> string list \<Rightarrow> order_state \<Rightarrow> error + order_state"
where
  "visit reg name st =
     (if name \<in> visited st then Inr st
      else if hasPlugin reg name then
        (case getPlugin reg name of
           Inl e \<Rightarrow> Inl e
         | Inr plugin \<Rightarrow>
            (case visit_each reg (getDependencies plugin)
                    (st\<lparr>visited := insert name (visited st)\<rparr>) of
               Inl e \<Rightarrow> Inl e
             | Inr st' \<Rightarrow>
                 Inr (if name \<notin> set (result st')
                      then st'\<lparr>result := result st' @ [name]\<rparr> else st')))
      else Inr (st\<lparr>visited := insert name (visited st)\<rparr>))"
| "visit_each reg [] st = Inr st"
| "visit_each reg (n # ns) st =
     (case visit reg n st of
        Inl e \<Rightarrow> Inl e
      | Inr st' \<Rightarrow> visit_each reg ns st')"
  by pat_completeness auto

text \<open>
  The loop continues in the state the previous \<^verbatim>\<open>visit\<close> returned, so termination
  needs to know first that a call never shrinks \<open>visited\<close>.
\<close>

lemma visit_dom_visited_mono:
  "visit_visit_each_dom (Inl (reg, name, st)) \<Longrightarrow> visit reg name st = Inr st'
     \<Longrightarrow> visited st \<subseteq> visited st'"
  "visit_visit_each_dom (Inr (reg, ns, st)) \<Longrightarrow> visit_each reg ns st = Inr st'
     \<Longrightarrow> visited st \<subseteq> visited st'"
proof (induction reg name st and reg ns st arbitrary: st' and st'
       rule: visit_visit_each.pinduct)
  case (1 reg name st)
  then show ?case
    by (fastforce simp: visit.psimps split: if_splits sum.splits)
next
  case (2 reg st)
  then show ?case by (simp add: visit_each.psimps)
next
  case (3 reg n ns st)
  then show ?case
    by (fastforce simp: visit_each.psimps split: sum.splits)
qed

termination visit
  apply (relation "inv_image (finite_psubset <*lex*> less_than)
     (\<lambda>x. case x of
         Inl (reg, name, st) \<Rightarrow> (keys reg - visited st, 0)
       | Inr (reg, ns, st) \<Rightarrow> (keys reg - visited st, Suc (length ns)))")
  subgoal by (intro wf_inv_image wf_lex_prod wf_finite_psubset wf_less_than)
  subgoal by (auto dest!: getPlugin_Inr_keys simp: finite_psubset_def finite_keys)
  subgoal by simp
  subgoal for reg n ns st st'
    using visit_dom_visited_mono(1)[of reg n st st']
    by (auto simp: finite_psubset_def finite_keys)
  done

definition getPluginsInDependencyOrder :: "registry \<Rightarrow> string list \<Rightarrow> error + string list" where
  "getPluginsInDependencyOrder reg pluginNames =
     (case visit_each reg pluginNames \<lparr>visited = {}, result = []\<rparr> of
        Inl e \<Rightarrow> Inl e
      | Inr st \<Rightarrow> Inr (result st))"

text \<open>
  \<^verbatim>\<open>visit\<close> calls itself once per level of dependency nesting, and the call stack of
  the runtime holds only so many activations: a call that does not fit throws
  \<^verbatim>\<open>RangeError: Maximum call stack size exceeded\<close>. \<open>visit_within frames\<close> is the same
  closure run with room for \<open>frames\<close> nested activations of \<^verbatim>\<open>visit\<close>; how many
  there are depends on the runtime and is a parameter. \<open>visit\<close> above is the traversal
  on a stack that never runs out.
\<close>

datatype failure = RangeError | Thrown error

fun visit_within :: "nat \<Rightarrow> registry \<Rightarrow> string \<Rightarrow> order_state \<Rightarrow> failure + order_state"
  and visit_each_within ::
    "nat \<Rightarrow> registry \<Rightarrow> string list \<Rightarrow> order_state \<Rightarrow> failure + order_state"
where
  "visit_within 0 reg name st = Inl RangeError"
| "visit_within (Suc frames) reg name st =
     (if name \<in> visited st then Inr st
      else if hasPlugin reg name then
        (case getPlugin reg name of
           Inl e \<Rightarrow> Inl (Thrown e)
         | Inr plugin \<Rightarrow>
            (case visit_each_within frames reg (getDependencies plugin)
                    (st\<lparr>visited := insert name (visited st)\<rparr>) of
               Inl f \<Rightarrow> Inl f
             | Inr st' \<Rightarrow>
                 Inr (if name \<notin> set (result st')
                      then st'\<lparr>result := result st' @ [name]\<rparr> else st')))
      else Inr (st\<lparr>visited := insert name (visited st)\<rparr>))"
| "visit_each_within frames reg [] st = Inr st"
| "visit_each_within frames reg (n # ns) st =
     (case visit_within frames reg n st of
        Inl f \<Rightarrow> Inl f
      | Inr st' \<Rightarrow> visit_each_within frames reg ns st')"

definition getPluginsInDependencyOrder_within ::
  "nat \<Rightarrow> registry \<Rightarrow> string list \<Rightarrow> failure + string list" where
  "getPluginsInDependencyOrder_within frames reg pluginNames =
     (case visit_each_within frames reg pluginNames \<lparr>visited = {}, result = []\<rparr> of
        Inl f \<Rightarrow> Inl f
      | Inr st \<Rightarrow> Inr (result st))"

declare resolveDependencies.simps [simp del]
declare visit.simps [simp del]

section \<open>Template processor (src/templates/processor.js)\<close>

subsection \<open>The JavaScript string operations the processor calls\<close>

text \<open>
  File contents and paths are byte strings: a text file is represented by its UTF-8
  bytes, on which \<^verbatim>\<open>Buffer.toString('utf8')\<close> followed by the UTF-8 write of
  \<^verbatim>\<open>fs.writeFile\<close> is the identity when the input is well-formed UTF-8
  (\<open>utf8_well_formed\<close> below); ill-formed bytes, which the decoder replaces, are not
  represented. Every pattern the processor searches for is ASCII, so searching the bytes
  and searching the decoded string agree.
\<close>

fun str_includes :: "string \<Rightarrow> string \<Rightarrow> bool" where
  "str_includes [] sub = (sub = [])"
| "str_includes (c # cs) sub = (prefix sub (c # cs) \<or> str_includes cs sub)"

text \<open>
  \<^verbatim>\<open>String.prototype.replace\<close> expands \<^verbatim>\<open>$\<close> patterns in a replacement string
  (ECMAScript GetSubstitution): \<^verbatim>\<open>$$\<close> is a dollar sign, \<^verbatim>\<open>$&\<close> the match, \<^verbatim>\<open>$`\<close> the
  text before the match and \<^verbatim>\<open>$'\<close> the text after it. The patterns of the processor
  have no capture groups, so \<^verbatim>\<open>$1\<close> and \<^verbatim>\<open>$<name>\<close> stay as they are.
\<close>

fun getSubstitution :: "string \<Rightarrow> string \<Rightarrow> string \<Rightarrow> string \<Rightarrow> string" where
  "getSubstitution matched pre post [] = []"
| "getSubstitution matched pre post [c] = [c]"
| "getSubstitution matched pre post (c # d # r) =
     (if c = CHR ''$'' \<and> d = CHR ''$'' then CHR ''$'' # getSubstitution matched pre post r
      else if c = CHR ''$'' \<and> d = CHR ''&'' then matched @ getSubstitution matched pre post r
      else if c = CHR ''$'' \<and> d = CHR 0x60 then pre @ getSubstitution matched pre post r
      else if c = CHR ''$'' \<and> d = CHR 0x27 then post @ getSubstitution matched pre post r
      else c # getSubstitution matched pre post (d # r))"

text \<open>
  \<^verbatim>\<open>s.replace(pat, repl)\<close> with a string pattern: the first occurrence only.
  \<open>pre\<close> is the part of the subject already passed.
\<close>

fun replace_first_from :: "string \<Rightarrow> string \<Rightarrow> string \<Rightarrow> string \<Rightarrow> string" where
  "replace_first_from pat repl pre [] =
     (if pat = [] then getSubstitution [] pre [] repl else [])"
| "replace_first_from pat repl pre (c # cs) =
     (if prefix pat (c # cs)
      then getSubstitution pat pre (drop (length pat) (c # cs)) repl
             @ drop (length pat) (c # cs)
      else c # replace_first_from pat repl (pre @ [c]) cs)"

text \<open>
  \<^verbatim>\<open>s.replace(/pat/g, repl)\<close> for a regular expression that matches one fixed,
  non-empty string (\<^verbatim>\<open>/\./g\<close>, \<^verbatim>\<open>/\${packageName}/g\<close>, \<^verbatim>\<open>/\${projectName}/g\<close>):
  every occurrence, left to right, not overlapping.
\<close>

function replace_all_from :: "string \<Rightarrow> string \<Rightarrow> string \<Rightarrow> string \<Rightarrow> string" where
  "replace_all_from pat repl pre [] = []"
| "replace_all_from pat repl pre (c # cs) =
     (if pat \<noteq> [] \<and> prefix pat (c # cs)
      then getSubstitution pat pre (drop (length pat) (c # cs)) repl
             @ replace_all_from pat repl (pre @ pat) (drop (length pat) (c # cs))
      else c # replace_all_from pat repl (pre @ [c]) cs)"
  by pat_completeness auto

termination
  by (relation "measure (\<lambda>(pat, repl, pre, s). length s)") (auto simp: neq_Nil_conv)

definition js_replace :: "string \<Rightarrow> string \<Rightarrow> string \<Rightarrow> string" where
  "js_replace s pat repl = replace_first_from pat repl [] s"

definition js_replace_all :: "string \<Rightarrow> string \<Rightarrow> string \<Rightarrow> string" where
  "js_replace_all s pat repl = replace_all_from pat repl [] s"

text \<open>
  \<^verbatim>\<open>toLowerCase()\<close>, as far as a comparison with an ASCII string can tell: the
  letters A to Z are lowered, and so is the Kelvin sign U+212A (the bytes E2 84 AA),
  whose lower case is the letter k. It is the only character outside ASCII whose lower
  case lies inside ASCII; every other one is kept, as its lower case is not ASCII either.
\<close>

definition lower_char :: "char \<Rightarrow> char" where
  "lower_char c =
     (case map_of (zip ''ABCDEFGHIJKLMNOPQRSTUVWXYZ'' ''abcdefghijklmnopqrstuvwxyz'') c of
        Some l \<Rightarrow> l
      | None \<Rightarrow> c)"

fun toLowerCase :: "string \<Rightarrow> string" where
  "toLowerCase (a # b # c # s) =
     (if a = CHR 0xE2 \<and> b = CHR 0x84 \<and> c = CHR 0xAA then CHR ''k'' # toLowerCase s
      else lower_char a # toLowerCase (b # c # s))"
| "toLowerCase (a # s) = lower_char a # toLowerCase s"
| "toLowerCase [] = []"

text \<open>
  \<^verbatim>\<open>path.basename\<close> and \<^verbatim>\<open>path.extname\<close> of Node's POSIX \<^verbatim>\<open>path\<close> module: the
  last segment of the path with trailing slashes ignored, and that segment from its last
  dot on, unless the dot is its first character or the segment is \<^verbatim>\<open>..\<close>.
\<close>

definition path_basename :: "string \<Rightarrow> string" where
  "path_basename p =
     rev (takeWhile (\<lambda>c. c \<noteq> CHR ''/'') (dropWhile (\<lambda>c. c = CHR ''/'') (rev p)))"

definition path_extname :: "string \<Rightarrow> string" where
  "path_extname p =
     (let base = path_basename p;
          ext = rev (takeWhile (\<lambda>c. c \<noteq> CHR ''.'') (rev base))
      in if CHR ''.'' \<notin> set base then []
         else if length base = Suc (length ext) then []
         else if base = ''..'' then []
         else CHR ''.'' # ext)"

text \<open>Decimal digits of \<^verbatim>\<open>files.length\<close> inside a template literal.\<close>

fun string_of_nat :: "nat \<Rightarrow> string" where
  "string_of_nat n =
     (if n < 10 then [''0123456789'' ! n]
      else string_of_nat (n div 10) @ [''0123456789'' ! (n mod 10)])"

declare string_of_nat.simps [simp del]

subsection \<open>Context, collaborators and effects\<close>

record project_context =
  ctx_name :: string
  ctx_outputDir :: string
  ctx_packageName :: "string option"
  ctx_templateName :: string
  ctx_plugins :: "string list"

text \<open>The calls to \<^verbatim>\<open>logger\<close>, in order.\<close>

datatype log_entry = LogDebug string | LogInfo string | LogWarn string | LogError string

text \<open>
  lodash's \<^verbatim>\<open>template(text, { interpolate: /{{([\s\S]+?)}}/g })(context)\<close> is a
  library outside the repository: a parameter that gives the rendered text or the message
  of the exception it throws, at compilation or at evaluation.
\<close>

type_synonym template_engine = "string \<Rightarrow> project_context \<Rightarrow> string + string"

text \<open>
  The other collaborators, parameters as well: \<^verbatim>\<open>path.join\<close>, \<^verbatim>\<open>path.dirname\<close> and
  the two \<^verbatim>\<open>fs-extra\<close> calls, which act on a file system \<open>'fs\<close> and may throw.
\<close>

record 'fs platform =
  lodash_template :: template_engine
  path_join :: "string \<Rightarrow> string \<Rightarrow> string"
  path_dirname :: "string \<Rightarrow> string"
  fs_ensureDir :: "string \<Rightarrow> 'fs \<Rightarrow> string + 'fs"
  fs_writeFile :: "string \<Rightarrow> string \<Rightarrow> 'fs \<Rightarrow> string + 'fs"

record template_source =
  getFiles :: "string + string list"
  getFileContent :: "string \<Rightarrow> string + string"

record 'fs world =
  disk :: 'fs
  logged :: "log_entry list"

definition logger :: "log_entry list \<Rightarrow> 'fs world \<Rightarrow> 'fs world" where
  "logger entries w = w\<lparr>logged := logged w @ entries\<rparr>"

subsection \<open>\<^verbatim>\<open>isTextFile\<close>\<close>

definition textExtensions :: "string list" where
  "textExtensions =
     [''.txt'', ''.md'', ''.html'', ''.css'', ''.scss'', ''.less'', ''.js'', ''.jsx'', ''.ts'', ''.tsx'',
      ''.json'', ''.xml'', ''.yaml'', ''.yml'', ''.properties'', ''.conf'', ''.config'',
      ''.java'', ''.kt'', ''.groovy'', ''.gradle'', ''.py'', ''.rb'', ''.php'', ''.c'', ''.cpp'', ''.h'',
      ''.cs'', ''.go'', ''.rs'', ''.swift'', ''.sh'', ''.bat'', ''.ps1'']"

definition textFileNames :: "string list" where
  "textFileNames =
     [''dockerfile'', ''jenkinsfile'', ''makefile'', ''readme'', ''license'', ''.gitignore'',
      ''.dockerignore'', ''.npmignore'', ''.npmrc'', ''.env'', ''.env.example'']"

definition isTextFile :: "string \<Rightarrow> bool" where
  "isTextFile filePath =
     (let ext = toLowerCase (path_extname filePath) in
      if ext \<in> set textExtensions then True
      else (let basename = toLowerCase (path_basename filePath)
            in basename \<in> set textFileNames))"

subsection \<open>\<^verbatim>\<open>processFile\<close> and \<^verbatim>\<open>processTemplate\<close>\<close>

text \<open>
  Lines 61 to 68 of \<^verbatim>\<open>processFile\<close>, the ``special placeholder patterns'' of the
  path: the first \<^verbatim>\<open>__packageDir__\<close> becomes the package name with its dots turned
  into slashes, when \<^verbatim>\<open>context.packageName\<close> is truthy.
\<close>

definition substitute_packageDir :: "project_context \<Rightarrow> string \<Rightarrow> string" where
  "substitute_packageDir context outputPath =
     (case ctx_packageName context of
        None \<Rightarrow> outputPath
      | Some packageName \<Rightarrow>
          if packageName \<noteq> [] \<and> str_includes outputPath ''__packageDir__''
          then js_replace outputPath ''__packageDir__'' (js_replace_all packageName ''.'' ''/'')
          else outputPath)"

text \<open>
  Lines 49 to 68: the output path, with the warning the \<^verbatim>\<open>catch\<close> block logs when the
  engine throws.
\<close>

definition rewritePath ::
  "template_engine \<Rightarrow> project_context \<Rightarrow> string \<Rightarrow> string \<times> log_entry list" where
  "rewritePath template context file =
     (let (outputPath, warnings) =
        (if str_includes file ''{{'' \<and> str_includes file ''}}'' then
           (case template file context of
              Inr rendered \<Rightarrow> (rendered, [])
            | Inl message \<Rightarrow>
                (file, [LogWarn (''Failed to process template variables in path ''
                                   @ file @ '': '' @ message)]))
         else (file, []))
      in (substitute_packageDir context outputPath, warnings))"

text \<open>
  Lines 88 to 98, the ``special replacements'' of the content: every
  \<^verbatim>\<open>${packageName}\<close> when \<^verbatim>\<open>context.packageName\<close> is truthy, then every
  \<^verbatim>\<open>${projectName}\<close> when \<^verbatim>\<open>context.name\<close> is truthy.
\<close>

definition substitute_tokens :: "project_context \<Rightarrow> string \<Rightarrow> string" where
  "substitute_tokens context textContent =
     (let textContent =
            (case ctx_packageName context of
               None \<Rightarrow> textContent
             | Some packageName \<Rightarrow>
                 if packageName \<noteq> []
                 then js_replace_all textContent ''${packageName}'' packageName
                 else textContent)
      in if ctx_name context \<noteq> []
         then js_replace_all textContent ''${projectName}'' (ctx_name context)
         else textContent)"

text \<open>
  Lines 76 to 98: the text written for a file that \<^verbatim>\<open>isTextFile\<close> accepts, with the
  warning of its \<^verbatim>\<open>catch\<close> block.
\<close>

definition rewriteContent ::
  "template_engine \<Rightarrow> project_context \<Rightarrow> string \<Rightarrow> string \<Rightarrow> string \<times> log_entry list" where
  "rewriteContent template context file content =
     (let (textContent, warnings) =
        (if str_includes content ''{{'' \<and> str_includes content ''}}'' then
           (case template content context of
              Inr rendered \<Rightarrow> (rendered, [])
            | Inl message \<Rightarrow>
                (content, [LogWarn (''Failed to process template variables in ''
                                      @ file @ '': '' @ message)]))
         else (content, []))
      in (substitute_tokens context textContent, warnings))"

text \<open>
  \<^verbatim>\<open>processFile(file, context, templateSource)\<close>. The outer \<^verbatim>\<open>catch\<close> logs a warning
  and throws the error again; what was logged or written before stays.
\<close>

definition processFile ::
  "'fs platform \<Rightarrow> string \<Rightarrow> project_context \<Rightarrow> template_source \<Rightarrow> 'fs world
     \<Rightarrow> (string + unit) \<times> 'fs world" where
  "processFile P file context templateSource w =
     (let rethrow = (\<lambda>message w'.
            (Inl message,
             logger [LogWarn (''Failed to process file '' @ file @ '': '' @ message)] w'))
      in case getFileContent templateSource file of
           Inl message \<Rightarrow> rethrow message w
         | Inr content \<Rightarrow>
            (let (outputPath, pathWarnings) = rewritePath (lodash_template P) context file;
                 w1 = logger pathWarnings w;
                 outputFilePath = path_join P (ctx_outputDir context) outputPath
             in case fs_ensureDir P (path_dirname P outputFilePath) (disk w1) of
                  Inl message \<Rightarrow> rethrow message w1
                | Inr d1 \<Rightarrow>
                   (let (written, contentWarnings) =
                          (if isTextFile file
                           then rewriteContent (lodash_template P) context file content
                           else (content, []));
                        w2 = logger contentWarnings (w1\<lparr>disk := d1\<rparr>)
                    in case fs_writeFile P outputFilePath written (disk w2) of
                         Inl message \<Rightarrow> rethrow message w2
                       | Inr d2 \<Rightarrow>
                           (Inr (),
                            logger [LogDebug (''Processed file: '' @ file @ '' -> '' @ outputPath)]
                              (w2\<lparr>disk := d2\<rparr>)))))"

text \<open>The \<^verbatim>\<open>for (const file of files)\<close> loop of \<^verbatim>\<open>processTemplate\<close>.\<close>

fun process_each ::
  "'fs platform \<Rightarrow> string list \<Rightarrow> project_context \<Rightarrow> template_source \<Rightarrow> 'fs world
     \<Rightarrow> (string + unit) \<times> 'fs world" where
  "process_each P [] context templateSource w = (Inr (), w)"
| "process_each P (file # files) context templateSource w =
     (case processFile P file context templateSource w of
        (Inl message, w') \<Rightarrow> (Inl message, w')
      | (Inr u, w') \<Rightarrow> process_each P files context templateSource w')"

definition processTemplate ::
  "'fs platform \<Rightarrow> project_context \<Rightarrow> template_source \<Rightarrow> 'fs world \<Rightarrow> (string + bool) \<times> 'fs world" where
  "processTemplate P context templateSource w =
     (let rethrow = (\<lambda>message w'.
            (Inl message, logger [LogError (''Template processing failed: '' @ message)] w'));
          w0 = logger [LogInfo ''Processing template files...''] w
      in case fs_ensureDir P (ctx_outputDir context) (disk w0) of
           Inl message \<Rightarrow> rethrow message w0
         | Inr d1 \<Rightarrow>
            (case getFiles templateSource of
               Inl message \<Rightarrow> rethrow message (w0\<lparr>disk := d1\<rparr>)
             | Inr files \<Rightarrow>
                (let w1 = logger [LogDebug (''Found '' @ string_of_nat (length files)
                                              @ '' template files'')] (w0\<lparr>disk := d1\<rparr>)
                 in case process_each P files context templateSource w1 of
                      (Inl message, w2) \<Rightarrow> rethrow message w2
                    | (Inr u, w2) \<Rightarrow>
                        (Inr True, logger [LogInfo ''Template processing complete''] w2))))"

section \<open>Notions the statements use\<close>

text \<open>
  The dependency graph: an edge from a registered plugin to every name it declares.
\<close>

definition dep_edges :: "registry \<Rightarrow> (string \<times> string) set" where
  "dep_edges reg =
     {(n, d). \<exists>p. map_get (plugins reg) n = Some p \<and> d \<in> set (getDependencies p)}"

text \<open>
  A list is in dependency order when every registered dependency of its \<open>i\<close>-th name
  occurs among the names before position \<open>i\<close>.
\<close>

definition deps_before :: "registry \<Rightarrow> string list \<Rightarrow> bool" where
  "deps_before reg names \<longleftrightarrow>
     (\<forall>i < length names. \<forall>d. (names ! i, d) \<in> dep_edges reg \<and> hasPlugin reg d
        \<longrightarrow> d \<in> set (take i names))"

text \<open>
  During the traversal a registered name is in progress (\<open>gray\<close>) from the moment it is
  marked visited until it is pushed onto the result.
\<close>

definition gray :: "registry \<Rightarrow> order_state \<Rightarrow> string set" where
  "gray reg st = (visited st \<inter> keys reg) - set (result st)"

definition order_inv :: "registry \<Rightarrow> order_state \<Rightarrow> bool" where
  "order_inv reg st \<longleftrightarrow>
     set (result st) \<subseteq> visited st \<inter> keys reg \<and> distinct (result st)
       \<and> deps_before reg (result st)"

definition visit_post :: "registry \<Rightarrow> order_state \<Rightarrow> order_state \<Rightarrow> string list \<Rightarrow> bool" where
  "visit_post reg st st' ns \<longleftrightarrow>
     order_inv reg st' \<and> gray reg st' = gray reg st \<and> visited st \<subseteq> visited st'
       \<and> set ns \<subseteq> visited st' \<and> set ns \<inter> keys reg \<subseteq> set (result st')
       \<and> (\<exists>ys. result st' = result st @ ys)"

text \<open>
  The registered names that a request reaches through dependency edges, and the state
  in which one more name counts as visited.
\<close>

definition reachable_from :: "registry \<Rightarrow> string list \<Rightarrow> string set" where
  "reachable_from reg ns = {m. hasPlugin reg m \<and> (\<exists>n \<in> set ns. (n, m) \<in> (dep_edges reg)\<^sup>*)}"

definition mark :: "string \<Rightarrow> order_state \<Rightarrow> order_state" where
  "mark u st = st\<lparr>visited := insert u (visited st)\<rparr>"


text \<open>
  The registry after a sequence of \<^verbatim>\<open>register\<close> calls, whatever each call answered
  (plugin discovery catches the exception of a rejected plugin and goes on).
\<close>

definition after_registering :: "registry \<Rightarrow> plugin list \<Rightarrow> registry" where
  "after_registering reg ps = foldl (\<lambda>r p. snd (register r p)) reg ps"

definition names_match_keys :: "registry \<Rightarrow> bool" where
  "names_match_keys reg \<longleftrightarrow>
     distinct (map fst (plugins reg)) \<and> list_all (\<lambda>(k, p). getName p = k) (plugins reg)"

text \<open>
  A platform for the concrete instances: \<^verbatim>\<open>path.join\<close> of two plain segments puts a
  slash between them, the file system is the list of directories ensured and the list
  of files written, and no call fails. Its template engine always throws.
\<close>

definition demo_dirname :: "string \<Rightarrow> string" where
  "demo_dirname p = rev (drop 1 (dropWhile (\<lambda>c. c \<noteq> CHR ''/'') (rev p)))"

definition demo_platform :: "(string list \<times> (string \<times> string) list) platform" where
  "demo_platform =
     \<lparr>lodash_template = (\<lambda>text context. Inl ''name is not defined''),
      path_join = (\<lambda>a b. a @ ''/'' @ b),
      path_dirname = demo_dirname,
      fs_ensureDir = (\<lambda>dir (dirs, files). Inr (dirs @ [dir], files)),
      fs_writeFile = (\<lambda>path written (dirs, files). Inr (dirs, files @ [(path, written)]))\<rparr>"

definition demo_context :: project_context where
  "demo_context =
     \<lparr>ctx_name = ''orders-api'', ctx_outputDir = ''out'',
      ctx_packageName = Some ''com.acme.orders'', ctx_templateName = ''java-spring'',
      ctx_plugins = []\<rparr>"

definition demo_source :: "(string \<times> string) list \<Rightarrow> template_source" where
  "demo_source files =
     \<lparr>getFiles = Inr (map fst files),
      getFileContent = (\<lambda>file. case map_of files file of
                                   Some content \<Rightarrow> Inr content
                                 | None \<Rightarrow> Inl (''ENOENT: no such file or directory, open ''
                                                  @ file))\<rparr>"

definition demo_world :: "(string list \<times> (string \<times> string) list) world" where
  "demo_world = \<lparr>disk = ([], []), logged = []\<rparr>"

text \<open>The package name as a directory: every dot becomes a slash.\<close>

definition dots_to_slashes :: "string \<Rightarrow> string" where
  "dots_to_slashes s = map (\<lambda>c. if c = CHR ''.'' then CHR ''/'' else c) s"

text \<open>
  A chain of \<open>n\<close> plugins, each depending on the next one; the \<open>i\<close>-th is named by
  \<open>i + 1\<close> letters p.
\<close>

definition plugin_name :: "nat \<Rightarrow> string" where
  "plugin_name i = replicate (Suc i) (CHR ''p'')"

definition chain_plugin :: "nat \<Rightarrow> nat \<Rightarrow> plugin" where
  "chain_plugin n i =
     \<lparr>getName = plugin_name i, getVersion = ''1.0.0'',
      getDependencies = (if Suc i < n then [plugin_name (Suc i)] else [])\<rparr>"

definition chain_of :: "nat \<Rightarrow> registry" where
  "chain_of n = \<lparr>plugins = map (\<lambda>i. (plugin_name i, chain_plugin n i)) [0..<n]\<rparr>"





text \<open>Registries for the concrete instances.\<close>

definition plugin_named :: "string \<Rightarrow> string list \<Rightarrow> plugin" where
  "plugin_named n deps = \<lparr>getName = n, getVersion = ''1.0.0'', getDependencies = deps\<rparr>"

definition chain_registry :: registry where
  "chain_registry =
     \<lparr>plugins = [(''A'', plugin_named ''A'' [''B'']), (''B'', plugin_named ''B'' [])]\<rparr>"

definition cyclic_registry :: registry where
  "cyclic_registry =
     \<lparr>plugins = [(''A'', plugin_named ''A'' [''B'']), (''B'', plugin_named ''B'' [''A''])]\<rparr>"

definition dangling_registry :: registry where
  "dangling_registry =
     \<lparr>plugins = [(''A'', plugin_named ''A'' [''B'']), (''B'', plugin_named ''B'' [''C''])]\<rparr>"


lemmas registry_eval =
  getPluginsInDependencyOrder_def visit.simps resolveDependencies.simps hasPlugin_def
  getPlugin_def map_has_def map_get_def plugin_named_def

section \<open>The registry: registration\<close>

lemma map_set_fresh: "k \<notin> fst ` set m \<Longrightarrow> map_set m k v = m @ [(k, v)]"
  by (induction m) auto

lemma register_names_match_keys:
  "names_match_keys reg \<Longrightarrow> names_match_keys (snd (register reg p))"
  by (auto simp: register_def names_match_keys_def Let_def map_has_def map_set_fresh)

lemma after_registering_names_match_keys:
  "names_match_keys reg \<Longrightarrow> names_match_keys (after_registering reg ps)"
  unfolding after_registering_def
  by (induction ps arbitrary: reg) (auto intro: register_names_match_keys)

lemma names_match_keys_distinct_names:
  assumes "names_match_keys reg"
  shows "distinct (map (\<lambda>(k, p). getName p) (plugins reg))"
proof -
  have eq: "map (\<lambda>(k, p). getName p) (plugins reg) = map fst (plugins reg)"
    using assms by (intro map_cong[OF refl]) (auto simp: names_match_keys_def list_all_iff)
  from assms have "distinct (map fst (plugins reg))"
    by (simp add: names_match_keys_def)
  then show ?thesis by (simp only: eq)
qed

text \<open>
  Claim C9. Registering a plugin whose name is already a key fails with the error that
  names the duplicate, and the registry the call leaves is the registry it was given.
  Consequently, whatever sequence of \<^verbatim>\<open>register\<close> calls a new registry has gone
  through, the names of its plugins are pairwise different.
\<close>

theorem register_rejects_duplicate:
  "(map_has (plugins reg) (getName p) \<longrightarrow>
      register reg p = (Inl (AlreadyRegistered (getName p)), reg))
   \<and> distinct (map (\<lambda>(k, q). getName q) (plugins (after_registering new_registry ps)))"
proof -
  have "names_match_keys new_registry"
    by (simp add: names_match_keys_def new_registry_def)
  then have "names_match_keys (after_registering new_registry ps)"
    by (rule after_registering_names_match_keys)
  then show ?thesis
    by (auto simp: register_def names_match_keys_distinct_names)
qed

theorem register_rejects_duplicate_witness:
  "map_has (plugins chain_registry) (getName (plugin_named ''A'' [''X'']))
   \<and> register chain_registry (plugin_named ''A'' [''X''])
       = (Inl (AlreadyRegistered ''A''), chain_registry)
   \<and> after_registering new_registry
        [plugin_named ''A'' [''B''], plugin_named ''B'' [], plugin_named ''A'' [''X'']]
       = chain_registry"
  using register_rejects_duplicate[of chain_registry "plugin_named ''A'' [''X'']" "[]"]
  by (simp add: chain_registry_def plugin_named_def map_has_def after_registering_def
      register_def new_registry_def Let_def)

section \<open>The registry: the ordering traversal\<close>

lemma hasPlugin_getPlugin: "hasPlugin reg name \<Longrightarrow> \<exists>p. getPlugin reg name = Inr p"
  by (auto simp: hasPlugin_def getPlugin_def map_has_def map_get_def map_of_eq_None_iff
           split: option.splits)

lemma getPlugin_Inr_map_get:
  "getPlugin reg name = Inr p \<Longrightarrow> map_get (plugins reg) name = Some p"
  by (auto simp: getPlugin_def split: if_splits option.splits)

lemma dep_edges_iff:
  "getPlugin reg name = Inr p \<Longrightarrow>
     (name, d) \<in> dep_edges reg \<longleftrightarrow> d \<in> set (getDependencies p)"
  by (auto simp: dep_edges_def dest: getPlugin_Inr_map_get)

text \<open>The traversal has no failing branch that can be reached.\<close>

lemma visit_no_error:
  "\<exists>st'. visit reg name st = Inr st'"
  "\<exists>st'. visit_each reg ns st = Inr st'"
proof (induction reg name st and reg ns st rule: visit_visit_each.induct)
  case (1 reg name st)
  show ?case
  proof (cases "name \<notin> visited st \<and> hasPlugin reg name")
    case True
    then obtain p where p: "getPlugin reg name = Inr p"
      using hasPlugin_getPlugin by blast
    from 1[OF _ _ p] True obtain st' where
      "visit_each reg (getDependencies p) (st\<lparr>visited := insert name (visited st)\<rparr>) = Inr st'"
      by blast
    with True p show ?thesis by (simp add: visit.simps)
  next
    case False
    then show ?thesis by (auto simp: visit.simps)
  qed
next
  case (2 reg st)
  show ?case by simp
next
  case (3 reg n ns st)
  then show ?case by (auto split: sum.splits)
qed

text \<open>
  A property of the state that survives marking a name and pushing a registered name
  not yet in the result survives the traversal.
\<close>

lemma visit_preserves:
  assumes mark: "\<And>st n. I st \<Longrightarrow> I (st\<lparr>visited := insert n (visited st)\<rparr>)"
    and push: "\<And>st n. I st \<Longrightarrow> hasPlugin reg0 n \<Longrightarrow> n \<notin> set (result st)
                 \<Longrightarrow> I (st\<lparr>result := result st @ [n]\<rparr>)"
  shows "visit reg name st = Inr st' \<Longrightarrow> reg = reg0 \<Longrightarrow> I st \<Longrightarrow> I st'"
    and "visit_each reg ns st = Inr st' \<Longrightarrow> reg = reg0 \<Longrightarrow> I st \<Longrightarrow> I st'"
proof (induction reg name st and reg ns st arbitrary: st' and st' rule: visit_visit_each.induct)
  case (1 reg name st)
  show ?case
  proof (cases "name \<notin> visited st \<and> hasPlugin reg name")
    case True
    then obtain p where p: "getPlugin reg name = Inr p"
      using hasPlugin_getPlugin by blast
    let ?st1 = "st\<lparr>visited := insert name (visited st)\<rparr>"
    from "1.prems"(1) True p obtain st2 where
      deps: "visit_each reg (getDependencies p) ?st1 = Inr st2" and
      st': "st' = (if name \<notin> set (result st2) then st2\<lparr>result := result st2 @ [name]\<rparr> else st2)"
      by (auto simp: visit.simps split: sum.splits)
    have "I ?st1" using "1.prems"(3) by (rule mark)
    with "1.IH"[OF _ _ p deps "1.prems"(2)] True have "I st2" by blast
    with st' True "1.prems"(2) show ?thesis by (auto intro: push)
  next
    case False
    with "1.prems" show ?thesis by (auto simp: visit.simps intro: mark split: if_splits)
  qed
next
  case (2 reg st)
  then show ?case by simp
next
  case (3 reg n ns st)
  from "3.prems"(1) obtain st1 where
    a: "visit reg n st = Inr st1" and b: "visit_each reg ns st1 = Inr st'"
    by (auto split: sum.splits)
  from "3.IH"(1)[OF a "3.prems"(2,3)] have "I st1" .
  from "3.IH"(2)[OF a b "3.prems"(2) this] show ?case .
qed

lemma visit_each_result_keys:
  assumes "visit_each reg ns st = Inr st'" "set (result st) \<subseteq> keys reg"
  shows "set (result st') \<subseteq> keys reg"
  using visit_preserves(2)[where I = "\<lambda>s. set (result s) \<subseteq> keys reg",
      OF _ _ assms(1) refl assms(2)]
  by (simp add: hasPlugin_keys)

lemma visit_each_result_distinct:
  assumes "visit_each reg ns st = Inr st'" "distinct (result st)"
  shows "distinct (result st')"
  using visit_preserves(2)[where I = "\<lambda>s. distinct (result s)", OF _ _ assms(1) refl assms(2)]
  by simp

text \<open>
  On a bounded stack the traversal either runs out of frames or does exactly what it does
  on the unbounded one.
\<close>

lemma visit_within_refines:
  "visit_within frames reg name st = Inl RangeError
     \<or> visit_within frames reg name st = map_sum Thrown id (visit reg name st)"
  "visit_each_within frames reg ns st = Inl RangeError
     \<or> visit_each_within frames reg ns st = map_sum Thrown id (visit_each reg ns st)"
proof (induction frames reg name st and frames reg ns st
       rule: visit_within_visit_each_within.induct)
  case (1 reg name st)
  show ?case by simp
next
  case (2 frames reg name st)
  show ?case
  proof (cases "name \<notin> visited st \<and> hasPlugin reg name")
    case True
    then obtain p where p: "getPlugin reg name = Inr p"
      using hasPlugin_getPlugin by blast
    from "2.IH"[OF _ _ p] True p show ?thesis
      by (auto simp: visit.simps split: sum.splits)
  next
    case False
    then show ?thesis by (auto simp: visit.simps)
  qed
next
  case (3 frames reg st)
  show ?case by simp
next
  case (4 frames reg n ns st)
  then show ?case by (auto split: sum.splits)
qed

lemma visit_visited_mono:
  "visit reg name st = Inr st' \<Longrightarrow> visited st \<subseteq> visited st'"
  using visit_preserves(1)[where I = "\<lambda>s. visited st \<subseteq> visited s" and reg0 = reg
      and reg = reg and name = name and st = st and st' = st']
  by auto

lemma card_keys_unvisited_insert:
  "name \<in> keys reg \<Longrightarrow> name \<notin> V \<Longrightarrow> card (keys reg - insert name V) < card (keys reg - V)"
  by (intro psubset_card_mono) (auto simp: finite_keys)

lemma card_keys_unvisited_mono:
  "V \<subseteq> V' \<Longrightarrow> card (keys reg - V') \<le> card (keys reg - V)"
  by (intro card_mono) (auto simp: finite_keys)

text \<open>
  Every nested activation is for a registered name not visited before, so more frames
  than such names are enough.
\<close>

lemma visit_within_enough:
  "card (keys reg - visited st) < frames
     \<Longrightarrow> visit_within frames reg name st = map_sum Thrown id (visit reg name st)"
  "card (keys reg - visited st) < frames
     \<Longrightarrow> visit_each_within frames reg ns st = map_sum Thrown id (visit_each reg ns st)"
proof (induction frames reg name st and frames reg ns st
       rule: visit_within_visit_each_within.induct)
  case (1 reg name st)
  then show ?case by simp
next
  case (2 frames reg name st)
  show ?case
  proof (cases "name \<notin> visited st \<and> hasPlugin reg name")
    case True
    then obtain p where p: "getPlugin reg name = Inr p"
      using hasPlugin_getPlugin by blast
    have "card (keys reg - insert name (visited st)) < card (keys reg - visited st)"
      using True by (intro card_keys_unvisited_insert) (auto simp: hasPlugin_keys)
    with "2.prems"
    have "card (keys reg - visited (st\<lparr>visited := insert name (visited st)\<rparr>)) < frames"
      by simp
    from "2.IH"[OF _ _ p this] True p show ?thesis
      by (auto simp: visit.simps split: sum.splits)
  next
    case False
    then show ?thesis by (auto simp: visit.simps)
  qed
next
  case (3 frames reg st)
  show ?case by simp
next
  case (4 frames reg n ns st)
  obtain st1 where st1: "visit reg n st = Inr st1"
    using visit_no_error(1) by blast
  with "4.IH"(1)[OF "4.prems"] have w: "visit_within frames reg n st = Inr st1" by simp
  have "card (keys reg - visited st1) \<le> card (keys reg - visited st)"
    using visit_visited_mono[OF st1] by (rule card_keys_unvisited_mono)
  with "4.prems" have "card (keys reg - visited st1) < frames" by simp
  from "4.IH"(2)[OF w this] w st1 show ?case by simp
qed

lemma card_keys_le_size: "card (keys reg) \<le> length (plugins reg)"
  unfolding keys_def by (metis card_image_le card_length le_trans List.finite_set)

text \<open>The chain of \<open>n\<close> plugins needs \<open>n\<close> nested activations.\<close>

lemma plugin_name_inj: "plugin_name i = plugin_name j \<longleftrightarrow> i = j"
  by (auto simp: plugin_name_def dest!: arg_cong[where f = length])

lemma map_of_indexed:
  assumes "\<And>i j. f i = f j \<longleftrightarrow> i = j" "i \<in> set xs"
  shows "map_of (map (\<lambda>i. (f i, g i)) xs) (f i) = Some (g i)"
  using assms(2) by (induction xs) (auto simp: assms(1))

lemma chain_hasPlugin: "i < n \<Longrightarrow> hasPlugin (chain_of n) (plugin_name i)"
  by (auto simp: hasPlugin_def map_has_def chain_of_def image_iff intro!: bexI[where x = i])

lemma chain_getPlugin:
  assumes "i < n"
  shows "getPlugin (chain_of n) (plugin_name i) = Inr (chain_plugin n i)"
proof -
  have "map_of (map (\<lambda>i. (plugin_name i, chain_plugin n i)) [0..<n]) (plugin_name i)
          = Some (chain_plugin n i)"
    using assms by (intro map_of_indexed) (auto simp: plugin_name_inj)
  with chain_hasPlugin[OF assms] show ?thesis
    by (simp add: getPlugin_def hasPlugin_def map_get_def chain_of_def)
qed

lemma chain_overflows:
  "i + frames < n \<Longrightarrow> (\<forall>j \<ge> i. plugin_name j \<notin> visited st)
     \<Longrightarrow> visit_within frames (chain_of n) (plugin_name i) st = Inl RangeError"
proof (induction frames arbitrary: i st)
  case 0
  show ?case by simp
next
  case (Suc frames)
  let ?st1 = "st\<lparr>visited := insert (plugin_name i) (visited st)\<rparr>"
  have i: "i < n" and next_i: "Suc i < n" using Suc.prems(1) by simp_all
  have "Suc i + frames < n" using Suc.prems(1) by simp
  moreover have "\<forall>j \<ge> Suc i. plugin_name j \<notin> visited ?st1"
    using Suc.prems(2) by (auto simp: plugin_name_inj)
  ultimately have "visit_within frames (chain_of n) (plugin_name (Suc i)) ?st1 = Inl RangeError"
    by (rule Suc.IH)
  moreover have "plugin_name i \<notin> visited st" using Suc.prems(2) by simp
  ultimately show ?case
    using chain_hasPlugin[OF i] chain_getPlugin[OF i] next_i by (simp add: chain_plugin_def)
qed

lemma deep_chain_overflows:
  "frames < n \<Longrightarrow>
     getPluginsInDependencyOrder_within frames (chain_of n) [plugin_name 0] = Inl RangeError"
  using chain_overflows[of 0 frames n "\<lparr>visited = {}, result = []\<rparr>"]
  by (simp add: getPluginsInDependencyOrder_within_def)

text \<open>
  Claim C10, as stated, fails: the registry may be finite and acyclic and the call still
  raises. On a stack with room for 10000 nested activations of \<^verbatim>\<open>visit\<close>, requesting the
  head of a chain of 20000 plugins, each depending on the next, ends in the
  \<^verbatim>\<open>RangeError\<close> of the runtime.
\<close>

theorem deep_chain_exhausts_stack:
  "getPluginsInDependencyOrder_within 10000 (chain_of 20000) [plugin_name 0] = Inl RangeError"
  by (rule deep_chain_overflows) simp

text \<open>
  Claim C10, amended. For every registry, cyclic or with dependencies that are not
  registered, and every request list, \<^verbatim>\<open>getPluginsInDependencyOrder\<close> terminates and
  throws none of the registry's errors. Whenever it returns, every name of the list is
  registered and occurs in it once, and the list is the one of the traversal on an
  unbounded stack. It returns whenever the call stack has room for more nested
  activations of \<^verbatim>\<open>visit\<close> than there are registered plugins. The one error it can
  raise is the \<^verbatim>\<open>RangeError\<close> of an exhausted stack, and whatever the size of the
  stack, a chain of plugins one longer raises it.
\<close>

theorem ordering_within_call_stack:
  "(\<forall>e. getPluginsInDependencyOrder_within frames reg pluginNames \<noteq> Inl (Thrown e))
   \<and> (getPluginsInDependencyOrder_within frames reg pluginNames = Inr names
        \<longrightarrow> getPluginsInDependencyOrder reg pluginNames = Inr names
          \<and> (\<forall>n \<in> set names. hasPlugin reg n) \<and> distinct names)
   \<and> (length (plugins reg) < frames
        \<longrightarrow> (\<exists>names. getPluginsInDependencyOrder_within frames reg pluginNames = Inr names))
   \<and> getPluginsInDependencyOrder_within frames (chain_of (Suc frames)) [plugin_name 0]
        = Inl RangeError"
proof -
  let ?st0 = "\<lparr>visited = {}, result = []\<rparr>"
  obtain st where st: "visit_each reg pluginNames ?st0 = Inr st"
    using visit_no_error(2) by blast
  have keys: "set (result st) \<subseteq> keys reg"
    using visit_each_result_keys[OF st] by simp
  have dist: "distinct (result st)"
    using visit_each_result_distinct[OF st] by simp
  have cases: "visit_each_within frames reg pluginNames ?st0 = Inl RangeError
      \<or> visit_each_within frames reg pluginNames ?st0 = Inr st"
    using visit_within_refines(2)[of frames reg pluginNames ?st0] st by simp
  have a: "\<forall>e. getPluginsInDependencyOrder_within frames reg pluginNames \<noteq> Inl (Thrown e)"
    using cases by (auto simp: getPluginsInDependencyOrder_within_def)
  have b: "getPluginsInDependencyOrder reg pluginNames = Inr names
      \<and> (\<forall>n \<in> set names. hasPlugin reg n) \<and> distinct names"
    if "getPluginsInDependencyOrder_within frames reg pluginNames = Inr names"
    using that cases st keys dist
    by (auto simp: getPluginsInDependencyOrder_within_def getPluginsInDependencyOrder_def
        hasPlugin_keys)
  have c: "\<exists>names. getPluginsInDependencyOrder_within frames reg pluginNames = Inr names"
    if "length (plugins reg) < frames"
  proof -
    have "card (keys reg - visited ?st0) < frames"
      using that card_keys_le_size[of reg] by simp
    from visit_within_enough(2)[OF this, of pluginNames] st show ?thesis
      by (simp add: getPluginsInDependencyOrder_within_def)
  qed
  have d: "getPluginsInDependencyOrder_within frames (chain_of (Suc frames)) [plugin_name 0]
             = Inl RangeError"
    by (rule deep_chain_overflows) simp
  from a b c d show ?thesis by blast
qed

lemmas within_eval =
  getPluginsInDependencyOrder_within_def hasPlugin_def getPlugin_def map_has_def map_get_def
  plugin_named_def

theorem ordering_within_call_stack_witness:
  "getPluginsInDependencyOrder_within 3 dangling_registry [''A'', ''D'', ''A''] = Inr [''B'', ''A'']
   \<and> getPluginsInDependencyOrder dangling_registry [''A'', ''D'', ''A''] = Inr [''B'', ''A'']
   \<and> hasPlugin dangling_registry ''A'' \<and> hasPlugin dangling_registry ''B''
   \<and> length (plugins dangling_registry) < 3
   \<and> getPluginsInDependencyOrder_within 3 (chain_of 4) [plugin_name 0] = Inl RangeError"
proof -
  have ev: "getPluginsInDependencyOrder_within 3 dangling_registry [''A'', ''D'', ''A'']
              = Inr [''B'', ''A'']"
    by (simp add: within_eval dangling_registry_def numeral_3_eq_3)
  have sz: "length (plugins dangling_registry) < 3"
    by (simp add: dangling_registry_def)
  from ordering_within_call_stack[of 3 dangling_registry "[''A'', ''D'', ''A'']" "[''B'', ''A'']"]
    ev sz
  show ?thesis by (simp add: numeral_3_eq_3 eval_nat_numeral)
qed

text \<open>
  Visiting a name that is not registered only marks it; marking such a name earlier or
  later changes nothing else.
\<close>

lemma mark_simps [simp]:
  "visited (mark u st) = insert u (visited st)"
  "result (mark u st) = result st"
  by (simp_all add: mark_def)

lemma mark_commute:
  "(mark u st)\<lparr>visited := insert n (insert u (visited st))\<rparr>
     = mark u (st\<lparr>visited := insert n (visited st)\<rparr>)"
  by (simp add: mark_def insert_commute)

lemma mark_push: "mark u (st\<lparr>result := r\<rparr>) = (mark u st)\<lparr>result := r\<rparr>"
  by (simp add: mark_def)

lemma mark_idem: "mark u (mark u st) = mark u st"
  by (simp add: mark_def)

lemma mark_absorb: "u \<in> visited st \<Longrightarrow> mark u st = st"
  by (simp add: mark_def insert_absorb)

lemma visit_mark_unknown:
  assumes u: "\<not> hasPlugin reg0 u"
  shows "reg = reg0 \<Longrightarrow> visit reg name (mark u st) = map_sum id (mark u) (visit reg name st)"
    and "reg = reg0 \<Longrightarrow> visit_each reg ns (mark u st) = map_sum id (mark u) (visit_each reg ns st)"
proof (induction reg name st and reg ns st rule: visit_visit_each.induct)
  case (1 reg name st)
  show ?case
  proof (cases "name = u")
    case True
    with u "1.prems" show ?thesis
      by (simp add: visit.simps mark_absorb mark_idem)
  next
    case False
    note neq = False
    show ?thesis
    proof (cases "name \<notin> visited st \<and> hasPlugin reg name")
      case True
      then obtain p where p: "getPlugin reg name = Inr p"
        using hasPlugin_getPlugin by blast
      let ?st1 = "st\<lparr>visited := insert name (visited st)\<rparr>"
      from "1.IH"[OF _ _ p "1.prems"] True
      have ih: "visit_each reg (getDependencies p) (mark u ?st1)
                  = map_sum id (mark u) (visit_each reg (getDependencies p) ?st1)"
        by blast
      obtain st2 where st2: "visit_each reg (getDependencies p) ?st1 = Inr st2"
        using visit_no_error(2) by blast
      have l: "visit reg name (mark u st)
                 = Inr (if name \<notin> set (result (mark u st2))
                        then (mark u st2)\<lparr>result := result (mark u st2) @ [name]\<rparr>
                        else mark u st2)"
        using True neq p ih st2
        by (subst visit.simps) (simp add: mark_commute)
      have r: "visit reg name st
                 = Inr (if name \<notin> set (result st2)
                        then st2\<lparr>result := result st2 @ [name]\<rparr> else st2)"
        using True p st2 by (subst visit.simps) simp
      show ?thesis
        unfolding l r by (simp add: mark_push)
    next
      case False
      with neq show ?thesis
        by (auto simp: visit.simps mark_commute)
    qed
  qed
next
  case (2 reg st)
  show ?case by simp
next
  case (3 reg n ns st)
  obtain st1 where st1: "visit reg n st = Inr st1"
    using visit_no_error(1) by blast
  with "3.IH"(1)[OF "3.prems"] have "visit reg n (mark u st) = Inr (mark u st1)" by simp
  with st1 "3.IH"(2)[OF st1 "3.prems"] show ?case by simp
qed

lemma visit_each_drop_unknown:
  assumes u: "\<not> hasPlugin reg u"
  shows "map_sum id (mark u) (visit_each reg (filter (\<lambda>m. m \<noteq> u) ns) st)
           = map_sum id (mark u) (visit_each reg ns st)"
proof (induction ns arbitrary: st)
  case Nil
  show ?case by simp
next
  case (Cons n ns)
  show ?case
  proof (cases "n = u")
    case True
    have "visit reg u st = Inr (mark u st)"
      using u by (auto simp: visit.simps mark_def insert_absorb)
    then have "visit_each reg (n # ns) st = map_sum id (mark u) (visit_each reg ns st)"
      using True visit_mark_unknown(2)[OF u refl] by simp
    then have b: "map_sum id (mark u) (visit_each reg (n # ns) st)
                 = map_sum id (mark u) (visit_each reg ns st)"
      by (cases "visit_each reg ns st") (simp_all add: mark_idem)
    have "map_sum id (mark u) (visit_each reg (filter (\<lambda>m. m \<noteq> u) (n # ns)) st)
            = map_sum id (mark u) (visit_each reg (filter (\<lambda>m. m \<noteq> u) ns) st)"
      using True by simp
    also have "\<dots> = map_sum id (mark u) (visit_each reg ns st)"
      by (rule Cons.IH)
    also have "\<dots> = map_sum id (mark u) (visit_each reg (n # ns) st)"
      by (rule b[symmetric])
    finally show ?thesis .
  next
    case False
    obtain st1 where st1: "visit reg n st = Inr st1"
      using visit_no_error(1) by blast
    with False Cons.IH[of st1] show ?thesis by simp
  qed
qed

text \<open>
  Claim C5. A name that is not registered does not make
  \<^verbatim>\<open>getPluginsInDependencyOrder\<close> fail, whatever the request list; it is not in the
  list returned, and the list is the one returned for the request without that name.
\<close>

theorem unknown_name_is_skipped:
  assumes "\<not> hasPlugin reg n"
  shows "\<exists>names. getPluginsInDependencyOrder reg pluginNames = Inr names \<and> n \<notin> set names
           \<and> getPluginsInDependencyOrder reg (filter (\<lambda>m. m \<noteq> n) pluginNames) = Inr names"
proof -
  let ?st0 = "\<lparr>visited = {}, result = []\<rparr>"
  obtain st where st: "visit_each reg pluginNames ?st0 = Inr st"
    using visit_no_error(2) by blast
  obtain st' where st': "visit_each reg (filter (\<lambda>m. m \<noteq> n) pluginNames) ?st0 = Inr st'"
    using visit_no_error(2) by blast
  from visit_each_drop_unknown[OF assms, of pluginNames ?st0] st st'
  have "mark n st' = mark n st" by simp
  then have "result (mark n st') = result (mark n st)" by simp
  then have same: "result st' = result st" by simp
  have "set (result st) \<subseteq> keys reg"
    using visit_each_result_keys[OF st] by simp
  with assms st st' same show ?thesis
    by (auto simp: getPluginsInDependencyOrder_def hasPlugin_keys)
qed

theorem unknown_name_is_skipped_witness:
  "\<not> hasPlugin chain_registry ''C''
     \<and> getPluginsInDependencyOrder chain_registry [''C'', ''A''] = Inr [''B'', ''A'']
     \<and> ''C'' \<notin> set [''B'', ''A'']
     \<and> getPluginsInDependencyOrder chain_registry [''A''] = Inr [''B'', ''A'']"
proof -
  have h: "\<not> hasPlugin chain_registry ''C''"
    by (simp add: hasPlugin_def map_has_def chain_registry_def)
  have ev: "getPluginsInDependencyOrder chain_registry [''C'', ''A''] = Inr [''B'', ''A'']"
    by (simp add: registry_eval chain_registry_def)
  from unknown_name_is_skipped[OF h, of "[''C'', ''A'']"] h ev show ?thesis by simp
qed

text \<open>
  Claim C1. With plugin A depending on B and B on A, the request \<open>[A]\<close> does not fail:
  the ordering returns the list \<open>[B, A]\<close>, in which B stands before the A it depends on.
  The cycle check of the registry, \<^verbatim>\<open>resolveDependencies\<close>, reports the cycle on the
  same registry; the ordering never calls it.
\<close>

theorem cyclic_request_returns_list:
  "getPluginsInDependencyOrder cyclic_registry [''A''] = Inr [''B'', ''A'']
     \<and> resolveDependencies cyclic_registry ''A'' {} = Inl (CircularDependency ''A'')"
  by (simp add: registry_eval cyclic_registry_def)

section \<open>The registry: ordering an acyclic graph\<close>

lemma deps_before_snoc:
  "deps_before reg (xs @ [n]) \<longleftrightarrow>
     deps_before reg xs \<and> (\<forall>d. (n, d) \<in> dep_edges reg \<and> hasPlugin reg d \<longrightarrow> d \<in> set xs)"
proof -
  have "(\<forall>i < Suc (length xs). P i) \<longleftrightarrow> (\<forall>i < length xs. P i) \<and> P (length xs)" for P
    using less_Suc_eq by auto
  then show ?thesis
    by (simp add: deps_before_def nth_append)
qed

lemma distinct_count_list_1: "distinct xs \<Longrightarrow> x \<in> set xs \<Longrightarrow> count_list xs x = 1"
  by (induction xs) (auto simp: count_list_0_iff)

text \<open>
  In an acyclic graph a name in progress cannot be met again below itself: when
  \<^verbatim>\<open>visit\<close> is entered for \<open>name\<close>, every name in progress reaches \<open>name\<close> through
  dependency edges. So when the loop over the dependencies of \<open>name\<close> is over, each
  registered dependency has been pushed, and \<open>name\<close> is pushed after all of them.
\<close>

lemma visit_acyclic:
  assumes ac: "acyclic (dep_edges reg0)"
  shows "visit reg name st = Inr st' \<Longrightarrow> reg = reg0 \<Longrightarrow> order_inv reg st
           \<Longrightarrow> (\<forall>g \<in> gray reg st. (g, name) \<in> (dep_edges reg)\<^sup>+)
           \<Longrightarrow> visit_post reg st st' [name]"
    and "visit_each reg ns st = Inr st' \<Longrightarrow> reg = reg0 \<Longrightarrow> order_inv reg st
           \<Longrightarrow> (\<forall>g \<in> gray reg st. \<forall>n \<in> set ns. (g, n) \<in> (dep_edges reg)\<^sup>+)
           \<Longrightarrow> visit_post reg st st' ns"
proof (induction reg name st and reg ns st arbitrary: st' and st' rule: visit_visit_each.induct)
  case (1 reg name st)
  note inv = \<open>order_inv reg st\<close>
  have ac': "acyclic (dep_edges reg)" using ac "1.prems"(2) by simp
  have not_gray: "name \<notin> gray reg st"
  proof
    assume "name \<in> gray reg st"
    with "1.prems"(4) have "(name, name) \<in> (dep_edges reg)\<^sup>+" by blast
    with ac' show False by (simp add: acyclic_def)
  qed
  show ?case
  proof (cases "name \<in> visited st")
    case True
    with "1.prems"(1) have "st' = st" by (simp add: visit.simps)
    with True not_gray inv show ?thesis
      by (auto simp: visit_post_def gray_def)
  next
    case False
    note fresh = False
    let ?st1 = "st\<lparr>visited := insert name (visited st)\<rparr>"
    show ?thesis
    proof (cases "hasPlugin reg name")
      case False
      with fresh "1.prems"(1) have "st' = ?st1" by (simp add: visit.simps)
      with False inv show ?thesis
        by (auto simp: visit_post_def gray_def order_inv_def hasPlugin_keys)
    next
      case True
      then obtain p where p: "getPlugin reg name = Inr p"
        using hasPlugin_getPlugin by blast
      from "1.prems"(1) fresh True p obtain st2 where
        deps: "visit_each reg (getDependencies p) ?st1 = Inr st2" and
        st': "st' = (if name \<notin> set (result st2)
                     then st2\<lparr>result := result st2 @ [name]\<rparr> else st2)"
        by (auto simp: visit.simps split: sum.splits)
      have key: "name \<in> keys reg" using True by (simp add: hasPlugin_keys)
      have name_res: "name \<notin> set (result st)"
        using inv fresh by (auto simp: order_inv_def)
      have inv1: "order_inv reg ?st1"
        using inv by (auto simp: order_inv_def)
      have gray1: "gray reg ?st1 = insert name (gray reg st)"
        using key name_res by (auto simp: gray_def)
      have pre1: "\<forall>g \<in> gray reg ?st1. \<forall>d \<in> set (getDependencies p).
                    (g, d) \<in> (dep_edges reg)\<^sup>+"
      proof (intro ballI)
        fix g d assume g: "g \<in> gray reg ?st1" and d: "d \<in> set (getDependencies p)"
        from d p have e: "(name, d) \<in> dep_edges reg" by (simp add: dep_edges_iff)
        from g gray1 have "g = name \<or> g \<in> gray reg st" by auto
        then show "(g, d) \<in> (dep_edges reg)\<^sup>+"
        proof
          assume "g = name" with e show ?thesis by auto
        next
          assume "g \<in> gray reg st"
          with "1.prems"(4) have "(g, name) \<in> (dep_edges reg)\<^sup>+" by blast
          with e show ?thesis by (auto intro: trancl_into_trancl)
        qed
      qed
      from "1.IH"[OF fresh True p deps "1.prems"(2) inv1 pre1]
      have post2: "visit_post reg ?st1 st2 (getDependencies p)" .
      then have inv2: "order_inv reg st2"
        and gray2: "gray reg st2 = insert name (gray reg st)"
        and vis2: "insert name (visited st) \<subseteq> visited st2"
        and deps2: "set (getDependencies p) \<inter> keys reg \<subseteq> set (result st2)"
        and app2: "\<exists>ys. result st2 = result st @ ys"
        by (auto simp: visit_post_def gray1)
      have not_in: "name \<notin> set (result st2)"
        using gray2 by (auto simp: gray_def)
      with st' have st'_eq: "st' = st2\<lparr>result := result st2 @ [name]\<rparr>" by simp
      have all_deps: "\<forall>d. (name, d) \<in> dep_edges reg \<and> hasPlugin reg d
                        \<longrightarrow> d \<in> set (result st2)"
        using deps2 p by (auto simp: dep_edges_iff hasPlugin_keys)
      have inv': "order_inv reg st'"
        using inv2 not_in vis2 key all_deps
        by (auto simp: st'_eq order_inv_def deps_before_snoc)
      have gray': "gray reg st' = gray reg st"
      proof -
        have "gray reg st' = gray reg st2 - {name}"
          by (auto simp: st'_eq gray_def)
        also have "\<dots> = gray reg st" using gray2 not_gray by auto
        finally show ?thesis .
      qed
      from inv' gray' vis2 app2 show ?thesis
        by (auto simp: visit_post_def st'_eq)
    qed
  qed
next
  case (2 reg st)
  then show ?case by (simp add: visit_post_def)
next
  case (3 reg n ns st)
  from "3.prems"(1) obtain st1 where
    a: "visit reg n st = Inr st1" and b: "visit_each reg ns st1 = Inr st'"
    by (auto split: sum.splits)
  have "\<forall>g \<in> gray reg st. (g, n) \<in> (dep_edges reg)\<^sup>+"
    using "3.prems"(4) by simp
  from "3.IH"(1)[OF a "3.prems"(2,3) this]
  have post1: "visit_post reg st st1 [n]" .
  then have inv1: "order_inv reg st1" and gray1: "gray reg st1 = gray reg st"
    by (auto simp: visit_post_def)
  have "\<forall>g \<in> gray reg st1. \<forall>m \<in> set ns. (g, m) \<in> (dep_edges reg)\<^sup>+"
    using "3.prems"(4) gray1 by simp
  from "3.IH"(2)[OF a b "3.prems"(2) inv1 this]
  have post2: "visit_post reg st1 st' ns" .
  from post1 post2 show ?case
    by (auto simp: visit_post_def)
qed

text \<open>
  Whatever the graph, a name is pushed only if a requested name reaches it; and a list in
  dependency order holds every registered name its members reach.
\<close>

lemma dep_edges_source_registered: "(n, d) \<in> dep_edges reg \<Longrightarrow> hasPlugin reg n"
  by (auto simp: dep_edges_def hasPlugin_def map_has_def map_get_def dest: map_of_SomeD
      intro: rev_image_eqI)

lemma visit_result_reachable:
  "visit reg name st = Inr st' \<Longrightarrow> set (result st') \<subseteq> set (result st) \<union> reachable_from reg [name]"
  "visit_each reg ns st = Inr st' \<Longrightarrow> set (result st') \<subseteq> set (result st) \<union> reachable_from reg ns"
proof (induction reg name st and reg ns st arbitrary: st' and st' rule: visit_visit_each.induct)
  case (1 reg name st)
  show ?case
  proof (cases "name \<notin> visited st \<and> hasPlugin reg name")
    case True
    then obtain p where p: "getPlugin reg name = Inr p"
      using hasPlugin_getPlugin by blast
    let ?st1 = "st\<lparr>visited := insert name (visited st)\<rparr>"
    from "1.prems"(1) True p obtain st2 where
      deps: "visit_each reg (getDependencies p) ?st1 = Inr st2" and
      st': "st' = (if name \<notin> set (result st2) then st2\<lparr>result := result st2 @ [name]\<rparr> else st2)"
      by (auto simp: visit.simps split: sum.splits)
    from "1.IH"[OF _ _ p deps] True
    have sub: "set (result st2) \<subseteq> set (result st) \<union> reachable_from reg (getDependencies p)"
      by simp
    have "reachable_from reg (getDependencies p) \<subseteq> reachable_from reg [name]"
      using p by (auto simp: reachable_from_def dep_edges_iff intro: converse_rtrancl_into_rtrancl)
    moreover have "name \<in> reachable_from reg [name]"
      using True by (simp add: reachable_from_def)
    ultimately show ?thesis using sub st' by auto
  next
    case False
    with "1.prems" show ?thesis by (auto simp: visit.simps split: if_splits)
  qed
next
  case (2 reg st)
  then show ?case by simp
next
  case (3 reg n ns st)
  from "3.prems"(1) obtain st1 where
    a: "visit reg n st = Inr st1" and b: "visit_each reg ns st1 = Inr st'"
    by (auto split: sum.splits)
  from "3.IH"(1)[OF a] "3.IH"(2)[OF a b] show ?case
    by (auto simp: reachable_from_def)
qed

lemma deps_before_closed:
  assumes o: "deps_before reg names" and n: "n \<in> set names"
    and path: "(n, m) \<in> (dep_edges reg)\<^sup>*" and m: "hasPlugin reg m"
  shows "m \<in> set names"
  using path n
proof (induction rule: converse_rtrancl_induct)
  case base
  then show ?case .
next
  case (step n y)
  have "hasPlugin reg y"
    using step.hyps(2) m by (cases rule: converse_rtranclE) (auto dest: dep_edges_source_registered)
  moreover from step.prems obtain i where i: "i < length names" "names ! i = n"
    by (auto simp: in_set_conv_nth)
  ultimately have "y \<in> set (take i names)"
    using o step.hyps(1) by (auto simp: deps_before_def)
  then have "y \<in> set names" by (auto dest: in_set_takeD)
  then show ?case by (rule step.IH)
qed

text \<open>
  Claim C3. When the dependency graph of the registry is acyclic, for every request
  list (with duplicates, with overlapping dependency chains)
  \<^verbatim>\<open>getPluginsInDependencyOrder\<close> returns a list without duplicates in which every
  registered dependency of a name stands strictly before that name. Its names are
  exactly the registered names the request reaches, and every requested name that is
  registered occurs exactly once.
\<close>

theorem acyclic_dependency_order:
  assumes "acyclic (dep_edges reg)"
  shows "\<exists>names. getPluginsInDependencyOrder reg pluginNames = Inr names
     \<and> distinct names
     \<and> deps_before reg names
     \<and> set names = reachable_from reg pluginNames
     \<and> (\<forall>n \<in> set pluginNames. hasPlugin reg n \<longrightarrow> count_list names n = 1)"
proof -
  let ?st0 = "\<lparr>visited = {}, result = []\<rparr>"
  obtain st where st: "visit_each reg pluginNames ?st0 = Inr st"
    using visit_no_error(2) by blast
  have "order_inv reg ?st0"
    by (simp add: order_inv_def deps_before_def)
  moreover have "\<forall>g \<in> gray reg ?st0. \<forall>n \<in> set pluginNames. (g, n) \<in> (dep_edges reg)\<^sup>+"
    by (simp add: gray_def)
  ultimately have post: "visit_post reg ?st0 st pluginNames"
    using visit_acyclic(2)[OF assms st refl] by blast
  then have d: "distinct (result st)" and o: "deps_before reg (result st)"
    and m: "set pluginNames \<inter> keys reg \<subseteq> set (result st)"
    by (auto simp: visit_post_def order_inv_def)
  have "count_list (result st) n = 1" if "n \<in> set pluginNames" "hasPlugin reg n" for n
  proof -
    from that m have "n \<in> set (result st)" by (auto simp: hasPlugin_keys)
    with d show ?thesis
      by (simp add: distinct_count_list_1)
  qed
  moreover have "set (result st) = reachable_from reg pluginNames"
  proof
    show "set (result st) \<subseteq> reachable_from reg pluginNames"
      using visit_result_reachable(2)[OF st] by simp
    show "reachable_from reg pluginNames \<subseteq> set (result st)"
    proof
      fix x assume "x \<in> reachable_from reg pluginNames"
      then obtain n where x: "hasPlugin reg x" and n: "n \<in> set pluginNames"
        and path: "(n, x) \<in> (dep_edges reg)\<^sup>*"
        by (auto simp: reachable_from_def)
      have "hasPlugin reg n"
        using path x by (cases rule: converse_rtranclE) (auto dest: dep_edges_source_registered)
      with n m have "n \<in> set (result st)" by (auto simp: hasPlugin_keys)
      from deps_before_closed[OF o this path x] show "x \<in> set (result st)" .
    qed
  qed
  ultimately show ?thesis using d o st
    by (auto simp: getPluginsInDependencyOrder_def)
qed

lemma dep_edges_chain: "dep_edges chain_registry = {(''A'', ''B'')}"
  by (auto simp: dep_edges_def chain_registry_def map_get_def plugin_named_def
      split: if_splits)

theorem acyclic_dependency_order_witness:
  "acyclic (dep_edges chain_registry)
     \<and> getPluginsInDependencyOrder chain_registry [''A'', ''B'', ''A''] = Inr [''B'', ''A'']
     \<and> deps_before chain_registry [''B'', ''A'']
     \<and> reachable_from chain_registry [''A'', ''B'', ''A''] = {''A'', ''B''}"
proof -
  have ac: "acyclic (dep_edges chain_registry)"
  proof -
    have "acyclic ({} :: (string \<times> string) set)" by (simp add: acyclic_def)
    then show ?thesis by (simp add: dep_edges_chain acyclic_insert)
  qed
  have ev: "getPluginsInDependencyOrder chain_registry [''A'', ''B'', ''A''] = Inr [''B'', ''A'']"
    by (simp add: registry_eval chain_registry_def)
  from acyclic_dependency_order[OF ac, of "[''A'', ''B'', ''A'']"] ac ev show ?thesis by auto
qed

section \<open>The registry: the validation check\<close>







section \<open>The processor: string operations\<close>

lemmas processor_eval =
  rewritePath_def rewriteContent_def substitute_tokens_def substitute_packageDir_def
  js_replace_def js_replace_all_def
  isTextFile_def path_extname_def path_basename_def lower_char_def
  textExtensions_def textFileNames_def

lemmas demo_eval =
  processFile_def demo_platform_def demo_context_def demo_source_def demo_world_def
  demo_dirname_def logger_def

lemma replace_all_absent:
  "\<not> str_includes s pat \<Longrightarrow> replace_all_from pat repl pre s = s"
  by (induction s arbitrary: pre) auto

lemma js_replace_all_absent: "\<not> str_includes s pat \<Longrightarrow> js_replace_all s pat repl = s"
  by (simp add: js_replace_all_def replace_all_absent)

lemma substitute_tokens_absent:
  "\<not> str_includes s ''${packageName}'' \<Longrightarrow> \<not> str_includes s ''${projectName}''
     \<Longrightarrow> substitute_tokens context s = s"
  by (simp add: substitute_tokens_def js_replace_all_absent split: option.splits)

lemma str_includes_set: "str_includes s sub \<Longrightarrow> set sub \<subseteq> set s"
proof (induction s)
  case Nil
  then show ?case by simp
next
  case (Cons a s)
  then consider "prefix sub (a # s)" | "str_includes s sub" by auto
  then show ?case
  proof cases
    case 1
    then show ?thesis by (rule set_mono_prefix)
  next
    case 2
    with Cons.IH show ?thesis by auto
  qed
qed

lemma substitute_tokens_no_dollar:
  "CHR ''$'' \<notin> set s \<Longrightarrow> substitute_tokens context s = s"
  by (rule substitute_tokens_absent) (auto dest: str_includes_set)

lemma getSubstitution_plain:
  "CHR ''$'' \<notin> set r \<Longrightarrow> getSubstitution m pre post r = r"
  by (induction m pre post r rule: getSubstitution.induct) auto


lemma replace_all_dots:
  "replace_all_from ''.'' ''/'' pre s = dots_to_slashes s"
  by (induction s arbitrary: pre) (auto simp: dots_to_slashes_def)

lemma str_includes_prefix: "prefix pat s \<Longrightarrow> str_includes s pat"
  by (cases s) auto

lemma replace_first_prefix:
  "pat \<noteq> [] \<Longrightarrow> prefix pat s \<Longrightarrow> replace_first_from pat repl pre s
     = getSubstitution pat pre (drop (length pat) s) repl @ drop (length pat) s"
  by (cases s) auto

lemma processFile_succeeds:
  assumes "getFileContent templateSource file = Inr content"
    and "rewritePath (lodash_template P) context file = (outputPath, pathWarnings)"
    and "fs_ensureDir P (path_dirname P (path_join P (ctx_outputDir context) outputPath)) (disk w)
           = Inr d1"
    and "(if isTextFile file then rewriteContent (lodash_template P) context file content
          else (content, [])) = (written, contentWarnings)"
    and "fs_writeFile P (path_join P (ctx_outputDir context) outputPath) written d1 = Inr d2"
  shows "processFile P file context templateSource w =
           (Inr (), \<lparr>disk = d2,
                     logged = logged w @ pathWarnings @ contentWarnings
                       @ [LogDebug (''Processed file: '' @ file @ '' -> '' @ outputPath)]\<rparr>)"
  using assms by (simp add: processFile_def logger_def Let_def)

text \<open>
  The string-pattern \<^verbatim>\<open>replace\<close> acts at the first occurrence of the pattern and
  keeps what stands before and after it.
\<close>

lemma prefix_within:
  "prefix pat (xs @ ys) \<Longrightarrow> length pat \<le> length xs \<Longrightarrow> prefix pat xs"
  using prefix_length_prefix[of pat "xs @ ys" xs] by simp

lemma replace_first_at_occurrence:
  assumes "pat \<noteq> []" "\<not> str_includes (pre @ butlast pat) pat"
  shows "replace_first_from pat repl before (pre @ pat @ post)
           = pre @ getSubstitution pat (before @ pre) post repl @ post"
  using assms(2)
proof (induction pre arbitrary: before)
  case Nil
  show ?case using assms(1) by (simp add: replace_first_prefix)
next
  case (Cons c pre)
  have split: "(c # pre) @ pat @ post = ((c # pre) @ butlast pat) @ (last pat # post)"
    using assms(1) by simp
  have "\<not> prefix pat ((c # pre) @ butlast pat)"
    using Cons.prems by simp
  moreover have "length pat \<le> length ((c # pre) @ butlast pat)"
    using assms(1) by (cases pat) auto
  ultimately have np: "\<not> prefix pat ((c # pre) @ pat @ post)"
    unfolding split using prefix_within by blast
  have "\<not> str_includes (pre @ butlast pat) pat"
    using Cons.prems by simp
  from Cons.IH[OF this, of "before @ [c]"] np show ?case by simp
qed

lemma substitute_packageDir_first:
  assumes "ctx_packageName context = Some packageName" "packageName \<noteq> []"
    "\<not> str_includes (pre @ ''__packageDir_'') ''__packageDir__''"
  shows "substitute_packageDir context (pre @ ''__packageDir__'' @ post)
           = pre @ getSubstitution ''__packageDir__'' pre post (dots_to_slashes packageName) @ post"
proof -
  have inc: "str_includes (pre @ ''__packageDir__'' @ post) ''__packageDir__''"
    by (induction pre) (simp_all add: str_includes_prefix del: str_includes.simps,
        simp add: str_includes_prefix)
  have "replace_first_from ''__packageDir__'' (dots_to_slashes packageName) []
          (pre @ ''__packageDir__'' @ post)
        = pre @ getSubstitution ''__packageDir__'' pre post (dots_to_slashes packageName)
            @ post"
    using assms(3)
      replace_first_at_occurrence[of "''__packageDir__''" pre "dots_to_slashes packageName" "[]" post]
    by simp
  with inc assms(1,2) show ?thesis
    by (simp add: substitute_packageDir_def js_replace_def js_replace_all_def replace_all_dots
        del: str_includes.simps replace_first_from.simps append.simps)
qed



text \<open>
  \<^verbatim>\<open>isTextFile\<close> compares lower-cased names: an extension spelt with capitals, or with
  the Kelvin sign for the letter k, is a text extension as well.
\<close>

lemma isTextFile_ignores_case:
  "isTextFile ''src/Main.JAVA'' \<and> isTextFile ''Dockerfile''
     \<and> isTextFile (''App.'' @ [CHR 0xE2, CHR 0x84, CHR 0xAA] @ ''t'') \<and> \<not> isTextFile ''logo.png''"
  by (simp add: processor_eval)

section \<open>The processor: rendering a file\<close>




text \<open>
  Claim C8. When the template engine throws on the content of a text file,
  \<^verbatim>\<open>processFile\<close> logs the warning with the engine's message, hands the original
  content (not a partly interpolated one) to the literal token pass and writes the
  outcome, which is the original content itself when it holds no literal token, and
  returns normally, so that the loop of \<^verbatim>\<open>processTemplate\<close> goes on with the next
  file. On the path it is the same: the path stays as it was for the package-directory
  pass and a warning is logged.
\<close>

theorem interpolation_failure_recovered:
  assumes "isTextFile file"
    and "str_includes content ''{{''" and "str_includes content ''}}''"
    and "lodash_template P content context = Inl message"
    and "getFileContent templateSource file = Inr content"
    and "rewritePath (lodash_template P) context file = (outputPath, pathWarnings)"
    and "fs_ensureDir P (path_dirname P (path_join P (ctx_outputDir context) outputPath)) (disk w)
           = Inr d1"
    and "fs_writeFile P (path_join P (ctx_outputDir context) outputPath)
           (substitute_tokens context content) d1 = Inr d2"
    and "w' = \<lparr>disk = d2,
               logged = logged w @ pathWarnings
                 @ [LogWarn (''Failed to process template variables in '' @ file @ '': '' @ message),
                    LogDebug (''Processed file: '' @ file @ '' -> '' @ outputPath)]\<rparr>"
  shows "processFile P file context templateSource w = (Inr (), w')
     \<and> process_each P (file # files) context templateSource w
         = process_each P files context templateSource w'
     \<and> (str_includes file ''{{'' \<and> str_includes file ''}}''
          \<and> lodash_template P file context = Inl pathMessage
        \<longrightarrow> outputPath = substitute_packageDir context file
          \<and> pathWarnings = [LogWarn (''Failed to process template variables in path ''
                                       @ file @ '': '' @ pathMessage)])
     \<and> (\<not> str_includes content ''${packageName}'' \<and> \<not> str_includes content ''${projectName}''
        \<longrightarrow> substitute_tokens context content = content)"
proof -
  have "rewriteContent (lodash_template P) context file content
          = (substitute_tokens context content,
             [LogWarn (''Failed to process template variables in '' @ file @ '': '' @ message)])"
    using assms(2-4) by (simp add: rewriteContent_def)
  with assms(1) have "(if isTextFile file
        then rewriteContent (lodash_template P) context file content
        else (content, []))
      = (substitute_tokens context content,
         [LogWarn (''Failed to process template variables in '' @ file @ '': '' @ message)])"
    by simp
  from processFile_succeeds[OF assms(5,6,7) this assms(8)] assms(9)
  have run: "processFile P file context templateSource w = (Inr (), w')" by simp
  then have "process_each P (file # files) context templateSource w
               = process_each P files context templateSource w'"
    by simp
  moreover have "outputPath = substitute_packageDir context file
      \<and> pathWarnings = [LogWarn (''Failed to process template variables in path ''
                                   @ file @ '': '' @ pathMessage)]"
    if "str_includes file ''{{''" "str_includes file ''}}''"
      "lodash_template P file context = Inl pathMessage"
    using assms(6) that by (auto simp: rewritePath_def)
  ultimately show ?thesis using run by (simp add: substitute_tokens_absent)
qed

theorem interpolation_failure_recovered_witness:
  "isTextFile ''notes/{{title}}.md''
   \<and> lodash_template demo_platform ''Hello {{nme}} of ${projectName}'' demo_context
        = Inl ''name is not defined''
   \<and> processFile demo_platform ''notes/{{title}}.md'' demo_context
        (demo_source [(''notes/{{title}}.md'', ''Hello {{nme}} of ${projectName}'')]) demo_world
       = (Inr (),
          \<lparr>disk = ([''out/notes''],
                    [(''out/notes/{{title}}.md'', ''Hello {{nme}} of orders-api'')]),
            logged =
              [LogWarn ''Failed to process template variables in path notes/{{title}}.md: name is not defined'',
               LogWarn ''Failed to process template variables in notes/{{title}}.md: name is not defined'',
               LogDebug ''Processed file: notes/{{title}}.md -> notes/{{title}}.md'']\<rparr>)"
proof -
  let ?file = "''notes/{{title}}.md''"
  let ?content = "''Hello {{nme}} of ${projectName}''"
  let ?src = "demo_source [(?file, ?content)]"
  let ?pw = "[LogWarn ''Failed to process template variables in path notes/{{title}}.md: name is not defined'']"
  have 1: "isTextFile ?file" by (simp add: processor_eval)
  have 2: "str_includes ?content ''{{''" by simp
  have 3: "str_includes ?content ''}}''" by simp
  have 4: "lodash_template demo_platform ?content demo_context = Inl ''name is not defined''"
    by (simp add: demo_platform_def)
  have 5: "getFileContent ?src ?file = Inr ?content" by (simp add: demo_source_def)
  have 6: "rewritePath (lodash_template demo_platform) demo_context ?file = (?file, ?pw)"
    by (simp add: processor_eval demo_context_def demo_platform_def)
  have 7: "fs_ensureDir demo_platform
             (path_dirname demo_platform
                (path_join demo_platform (ctx_outputDir demo_context) ?file))
             (disk demo_world) = Inr ([''out/notes''], [])"
    by (simp add: demo_eval)
  have 8: "fs_writeFile demo_platform
             (path_join demo_platform (ctx_outputDir demo_context) ?file)
             (substitute_tokens demo_context ?content) ([''out/notes''], [])
           = Inr ([''out/notes''], [(''out/notes/{{title}}.md'', ''Hello {{nme}} of orders-api'')])"
    by (simp add: demo_eval processor_eval)
  from interpolation_failure_recovered[OF 1 2 3 4 5 6 7 8 refl, of "[]" "''x''"] 1 4
  show ?thesis
    by (simp add: demo_world_def)
qed

lemma rewritePath_no_delims:
  "\<not> (str_includes file ''{{'' \<and> str_includes file ''}}'')
     \<Longrightarrow> rewritePath template context file = (substitute_packageDir context file, [])"
  by (auto simp: rewritePath_def)

lemma rewriteContent_no_delims:
  "\<not> (str_includes content ''{{'' \<and> str_includes content ''}}'')
     \<Longrightarrow> rewriteContent template context file content
           = (substitute_tokens context content, [])"
  by (auto simp: rewriteContent_def)

text \<open>
  Claim C6. Path rewriting is expression interpolation followed by package-directory
  substitution, and nothing else. When the path holds both \<^verbatim>\<open>{{\<close> and \<^verbatim>\<open>}}\<close> the
  outcome of the engine takes its place (the path itself, with a warning, when the
  engine throws); then the first \<^verbatim>\<open>__packageDir__\<close> becomes the package name with its
  dots turned into slashes, wherever it stands, and what stands before and after it,
  \<^verbatim>\<open>${projectName}\<close> and \<^verbatim>\<open>${packageName}\<close> tokens included, is kept as it is. A path
  without the token, or a context without a package name, leaves the path unchanged.
  With name \<^verbatim>\<open>orders-api\<close> and package \<^verbatim>\<open>com.acme.orders\<close> the path
  \<^verbatim>\<open>__packageDir__/Main.java\<close> becomes \<^verbatim>\<open>com/acme/orders/Main.java\<close>.
\<close>

theorem path_rewriting_forms:
  "(str_includes file ''{{'' \<and> str_includes file ''}}'' \<and> template file context = Inr rendered
     \<longrightarrow> rewritePath template context file = (substitute_packageDir context rendered, []))
   \<and> (str_includes file ''{{'' \<and> str_includes file ''}}'' \<and> template file context = Inl message
     \<longrightarrow> rewritePath template context file
           = (substitute_packageDir context file,
              [LogWarn (''Failed to process template variables in path ''
                          @ file @ '': '' @ message)]))
   \<and> (\<not> (str_includes file ''{{'' \<and> str_includes file ''}}'')
     \<longrightarrow> rewritePath template context file = (substitute_packageDir context file, []))
   \<and> (ctx_packageName context = None \<or> ctx_packageName context = Some []
       \<or> \<not> str_includes path ''__packageDir__''
     \<longrightarrow> substitute_packageDir context path = path)
   \<and> (ctx_packageName context = Some packageName \<and> packageName \<noteq> []
       \<and> \<not> str_includes (pre @ ''__packageDir_'') ''__packageDir__''
     \<longrightarrow> substitute_packageDir context (pre @ ''__packageDir__'' @ post)
           = pre @ getSubstitution ''__packageDir__'' pre post (dots_to_slashes packageName) @ post
       \<and> (CHR ''$'' \<notin> set packageName
           \<longrightarrow> substitute_packageDir context (pre @ ''__packageDir__'' @ post)
                 = pre @ dots_to_slashes packageName @ post))
   \<and> (ctx_name context = ''orders-api'' \<and> ctx_packageName context = Some ''com.acme.orders''
     \<longrightarrow> rewritePath template context ''__packageDir__/Main.java''
           = (''com/acme/orders/Main.java'', []))"
proof (intro conjI impI)
  assume "str_includes file ''{{'' \<and> str_includes file ''}}''
            \<and> template file context = Inr rendered"
  then show "rewritePath template context file = (substitute_packageDir context rendered, [])"
    by (simp add: rewritePath_def)
next
  assume "str_includes file ''{{'' \<and> str_includes file ''}}''
            \<and> template file context = Inl message"
  then show "rewritePath template context file
               = (substitute_packageDir context file,
                  [LogWarn (''Failed to process template variables in path ''
                              @ file @ '': '' @ message)])"
    by (simp add: rewritePath_def)
next
  assume "\<not> (str_includes file ''{{'' \<and> str_includes file ''}}'')"
  then show "rewritePath template context file = (substitute_packageDir context file, [])"
    by (rule rewritePath_no_delims)
next
  assume "ctx_packageName context = None \<or> ctx_packageName context = Some []
            \<or> \<not> str_includes path ''__packageDir__''"
  then show "substitute_packageDir context path = path"
    by (auto simp: substitute_packageDir_def split: option.splits)
next
  assume a: "ctx_packageName context = Some packageName \<and> packageName \<noteq> []
       \<and> \<not> str_includes (pre @ ''__packageDir_'') ''__packageDir__''"
  then show first: "substitute_packageDir context (pre @ ''__packageDir__'' @ post)
      = pre @ getSubstitution ''__packageDir__'' pre post (dots_to_slashes packageName) @ post"
    by (intro substitute_packageDir_first) simp_all
  assume "CHR ''$'' \<notin> set packageName"
  then have "CHR ''$'' \<notin> set (dots_to_slashes packageName)"
    by (auto simp: dots_to_slashes_def)
  then have "getSubstitution ''__packageDir__'' pre post (dots_to_slashes packageName)
               = dots_to_slashes packageName"
    by (rule getSubstitution_plain)
  with first show "substitute_packageDir context (pre @ ''__packageDir__'' @ post)
                     = pre @ dots_to_slashes packageName @ post"
    by (simp only:)
next
  assume "ctx_name context = ''orders-api'' \<and> ctx_packageName context = Some ''com.acme.orders''"
  then show "rewritePath template context ''__packageDir__/Main.java''
               = (''com/acme/orders/Main.java'', [])"
    by (simp add: processor_eval)
qed

theorem path_rewriting_forms_witness:
  "str_includes ''{{dir}}/__packageDir__/${projectName}.java'' ''{{''
   \<and> str_includes ''{{dir}}/__packageDir__/${projectName}.java'' ''}}''
   \<and> ctx_packageName demo_context = Some ''com.acme.orders''
   \<and> \<not> str_includes (''src/'' @ ''__packageDir_'') ''__packageDir__''
   \<and> CHR ''$'' \<notin> set ''com.acme.orders''
   \<and> rewritePath (\<lambda>text context. Inr ''src/__packageDir__/${projectName}.java'') demo_context
        ''{{dir}}/__packageDir__/${projectName}.java''
       = (''src/com/acme/orders/${projectName}.java'', [])
   \<and> ctx_name demo_context = ''orders-api''
   \<and> rewritePath (\<lambda>text context. Inr ''src/__packageDir__/${projectName}.java'') demo_context
        ''__packageDir__/Main.java''
       = (''com/acme/orders/Main.java'', [])"
  using path_rewriting_forms[of "''{{dir}}/__packageDir__/${projectName}.java''"
      "\<lambda>text context. Inr ''src/__packageDir__/${projectName}.java''" demo_context
      "''src/__packageDir__/${projectName}.java''" "''''" "''''" "''com.acme.orders''"
      "''src/''" "''/${projectName}.java''"]
  by (simp add: demo_context_def dots_to_slashes_def)

text \<open>
  Claim C2, as stated, fails: content rewriting has no package-directory pass. With the
  package name \<^verbatim>\<open>com.acme.orders\<close> on the context, the text file \<^verbatim>\<open>Main.java\<close> with
  the content \<^verbatim>\<open>// dir: __packageDir__\<close> is written with that same content.
\<close>
theorem content_keeps_packageDir_token:
  "isTextFile ''Main.java''
   \<and> ctx_packageName demo_context = Some ''com.acme.orders''
   \<and> rewriteContent (lodash_template demo_platform) demo_context ''Main.java''
        ''// dir: __packageDir__'' = (''// dir: __packageDir__'', [])
   \<and> processFile demo_platform ''Main.java'' demo_context
        (demo_source [(''Main.java'', ''// dir: __packageDir__'')]) demo_world
       = (Inr (), \<lparr>disk = ([''out''], [(''out/Main.java'', ''// dir: __packageDir__'')]),
                   logged = [LogDebug ''Processed file: Main.java -> Main.java'']\<rparr>)"
  by (simp add: processor_eval demo_eval)

text \<open>
  Claim C2, amended. Content rewriting of a text file applies two placeholder forms in
  a fixed order: expression interpolation first (when the content holds both \<^verbatim>\<open>{{\<close>
  and \<^verbatim>\<open>}}\<close>), then literal token substitution on its outcome, \<^verbatim>\<open>${packageName}\<close>
  before \<^verbatim>\<open>${projectName}\<close>. There is no package-directory substitution in content:
  a text without a dollar sign, \<^verbatim>\<open>__packageDir__\<close> tokens included, passes the token
  substitution unchanged.
\<close>

theorem content_rewriting_order:
  "(str_includes content ''{{'' \<and> str_includes content ''}}''
      \<and> template content context = Inr rendered
     \<longrightarrow> rewriteContent template context file content = (substitute_tokens context rendered, []))
   \<and> (\<not> (str_includes content ''{{'' \<and> str_includes content ''}}'')
     \<longrightarrow> rewriteContent template context file content = (substitute_tokens context content, []))
   \<and> (ctx_packageName context = Some packageName \<and> packageName \<noteq> []
       \<and> ctx_name context \<noteq> []
     \<longrightarrow> substitute_tokens context text
           = js_replace_all (js_replace_all text ''${packageName}'' packageName)
               ''${projectName}'' (ctx_name context))
   \<and> (CHR ''$'' \<notin> set text \<longrightarrow> substitute_tokens context text = text)"
proof (intro conjI impI)
  assume "str_includes content ''{{'' \<and> str_includes content ''}}''
            \<and> template content context = Inr rendered"
  then show "rewriteContent template context file content
               = (substitute_tokens context rendered, [])"
    by (simp add: rewriteContent_def)
next
  assume "\<not> (str_includes content ''{{'' \<and> str_includes content ''}}'')"
  then show "rewriteContent template context file content
               = (substitute_tokens context content, [])"
    by (rule rewriteContent_no_delims)
next
  assume "ctx_packageName context = Some packageName \<and> packageName \<noteq> []
            \<and> ctx_name context \<noteq> []"
  then show "substitute_tokens context text
               = js_replace_all (js_replace_all text ''${packageName}'' packageName)
                   ''${projectName}'' (ctx_name context)"
    by (simp add: substitute_tokens_def)
next
  assume "CHR ''$'' \<notin> set text"
  then show "substitute_tokens context text = text"
    by (rule substitute_tokens_no_dollar)
qed

theorem content_rewriting_order_witness:
  "\<not> str_includes ''package ${packageName}; // ${projectName} in __packageDir__'' ''{{''
   \<and> rewriteContent (lodash_template demo_platform) demo_context ''Main.java''
        ''package ${packageName}; // ${projectName} in __packageDir__''
       = (''package com.acme.orders; // orders-api in __packageDir__'', [])
   \<and> CHR ''$'' \<notin> set ''__packageDir__''
   \<and> substitute_tokens demo_context ''__packageDir__'' = ''__packageDir__''"
  using content_rewriting_order[of "''package ${packageName}; // ${projectName} in __packageDir__''"
      "lodash_template demo_platform" demo_context "''''" "''Main.java''" "''com.acme.orders''"
      "''__packageDir__''"]
  by (simp add: processor_eval demo_context_def)

end
